theory Spec2Isabelle
  imports Main "HOL-Library.AList"
begin

section \<open>JavaScript values\<close>

text \<open>
  The cache payloads, the request parameters and the decoded HTTP bodies are JavaScript
  values of the JSON kind. Numbers are the integers (page sizes, star counts, status codes
  and millisecond timestamps are all integral); strings are lists of 8-bit characters.
  An object is the list of its own enumerable properties in the order in which
  \<^verbatim>\<open>Object.keys\<close> and \<^verbatim>\<open>JSON.stringify\<close> enumerate them, which for
  names that are not array indices is the order of insertion.
\<close>

datatype json =
    JUndefined
  | JNull
  | JBool bool
  | JNum int
  | JStr string
  | JArr "json list"
  | JObj "(string \<times> json) list"

text \<open>Truthiness, as tested by \<^verbatim>\<open>if (x)\<close> and \<^verbatim>\<open>!x\<close>.\<close>

fun truthy :: "json \<Rightarrow> bool" where
  "truthy JUndefined = False"
| "truthy JNull = False"
| "truthy (JBool b) = b"
| "truthy (JNum n) = (n \<noteq> 0)"
| "truthy (JStr s) = (s \<noteq> [])"
| "truthy (JArr xs) = True"
| "truthy (JObj kvs) = True"

fun typeof :: "json \<Rightarrow> string" where
  "typeof JUndefined = ''undefined''"
| "typeof JNull = ''object''"
| "typeof (JBool b) = ''boolean''"
| "typeof (JNum n) = ''number''"
| "typeof (JStr s) = ''string''"
| "typeof (JArr xs) = ''object''"
| "typeof (JObj kvs) = ''object''"

subsection \<open>Numbers as decimal strings\<close>

definition digit_char :: "nat \<Rightarrow> char" where
  "digit_char d = ''0123456789'' ! d"

function show_nat :: "nat \<Rightarrow> string" where
  "show_nat n = (if n < 10 then [digit_char n] else show_nat (n div 10) @ [digit_char (n mod 10)])"
  by pat_completeness auto
termination
  by (relation "measure id") auto

declare show_nat.simps [simp del]

definition show_int :: "int \<Rightarrow> string" where
  "show_int i = (if i < 0 then CHR ''-'' # show_nat (nat (- i)) else show_nat (nat i))"

subsection \<open>\<^verbatim>\<open>JSON.stringify\<close>\<close>

text \<open>
  A string is written between double quotes; the double quote (0x22) and the backslash
  (0x5C) are escaped with a backslash, the control characters below 0x20 by their short
  form or as \<^verbatim>\<open>\u00XX\<close> in lower-case hexadecimal.
\<close>

definition hex_digit :: "nat \<Rightarrow> char" where
  "hex_digit d = ''0123456789abcdef'' ! d"

definition escape_char :: "char \<Rightarrow> string" where
  "escape_char c =
     (if c = CHR 0x22 then [CHR 0x5C, CHR 0x22]
      else if c = CHR 0x5C then [CHR 0x5C, CHR 0x5C]
      else if c = CHR 0x08 then [CHR 0x5C, CHR ''b'']
      else if c = CHR 0x0C then [CHR 0x5C, CHR ''f'']
      else if c = CHR 0x0A then [CHR 0x5C, CHR ''n'']
      else if c = CHR 0x0D then [CHR 0x5C, CHR ''r'']
      else if c = CHR 0x09 then [CHR 0x5C, CHR ''t'']
      else if (of_char c :: nat) < 0x20
        then [CHR 0x5C, CHR ''u'', CHR ''0'', CHR ''0'',
              hex_digit ((of_char c :: nat) div 16), hex_digit ((of_char c :: nat) mod 16)]
      else [c])"

definition quote :: "string \<Rightarrow> string" where
  "quote s = CHR 0x22 # concat (map escape_char s) @ [CHR 0x22]"

fun join_comma :: "string list \<Rightarrow> string" where
  "join_comma [] = []"
| "join_comma [x] = x"
| "join_comma (x # y # ys) = x @ CHR '','' # join_comma (y # ys)"

text \<open>
  \<open>stringify\<close> serialises a value that stands inside an array or an object, or an object
  at the top: an \<^verbatim>\<open>undefined\<close> array element is written \<^verbatim>\<open>null\<close>, a
  property whose value is \<^verbatim>\<open>undefined\<close> is left out. No indentation is used (the
  call in \<^verbatim>\<open>generateKey\<close> passes the value only).
\<close>

fun stringify :: "json \<Rightarrow> string"
  and stringify_elems :: "json list \<Rightarrow> string list"
  and stringify_props :: "(string \<times> json) list \<Rightarrow> string list" where
  "stringify JUndefined = ''null''"
| "stringify JNull = ''null''"
| "stringify (JBool b) = (if b then ''true'' else ''false'')"
| "stringify (JNum n) = show_int n"
| "stringify (JStr s) = quote s"
| "stringify (JArr xs) = CHR ''['' # join_comma (stringify_elems xs) @ '']''"
| "stringify (JObj kvs) = CHR ''{'' # join_comma (stringify_props kvs) @ ''}''"
| "stringify_elems [] = []"
| "stringify_elems (x # xs) = stringify x # stringify_elems xs"
| "stringify_props [] = []"
| "stringify_props ((k, v) # kvs) =
     (if v = JUndefined then stringify_props kvs
      else (quote k @ CHR '':'' # stringify v) # stringify_props kvs)"

section \<open>The cache manager (\<^verbatim>\<open>src/cacheManager.ts\<close>)\<close>

record cache_entry =
  data :: json
  timestamp :: int

text \<open>
  \<^verbatim>\<open>Cache\<close> is an object indexed by key: an association list in property order.
  Assigning to an existing key keeps its place, assigning to a new key appends it
  (\<open>AList.update\<close>); \<^verbatim>\<open>delete\<close> removes it (\<open>AList.delete\<close>). The keys of an
  object are distinct. Every key that \<^verbatim>\<open>generateKey\<close> makes contains a colon, so
  none is an array index or a name that \<^verbatim>\<open>Object.prototype\<close> provides, and reading
  \<^verbatim>\<open>this.cache[key]\<close> is the lookup \<open>map_of\<close> in the list.
\<close>

type_synonym cache = "(string \<times> cache_entry) list"

text \<open>
  The state of a \<^verbatim>\<open>CacheManager\<close>: the in-memory map, the configured duration in
  milliseconds, the content of the cache file (\<open>None\<close> while it does not exist), the
  number of calls of \<^verbatim>\<open>saveCache\<close>, and the lines written to the console.
\<close>

record cache_manager =
  cache :: cache
  cacheDuration :: int
  cacheFile :: "cache option"
  saves :: nat
  console :: "string list"

text \<open>
  \<^verbatim>\<open>saveCache\<close> writes the whole map; \<open>ok\<close> says whether
  \<^verbatim>\<open>fs.writeFileSync\<close> succeeds. A failure is caught and reported, and the map in
  memory stays as it is.
\<close>

definition saveCache :: "bool \<Rightarrow> cache_manager \<Rightarrow> cache_manager" where
  "saveCache ok m =
     (if ok then m\<lparr>cacheFile := Some (cache m), saves := saves m + 1\<rparr>
      else m\<lparr>saves := saves m + 1, console := console m @ [''Failed to save cache:'']\<rparr>)"

definition generateKey :: "string \<Rightarrow> (string \<times> json) list option \<Rightarrow> string" where
  "generateKey endpoint params =
     (let paramsString = (case params of Some p \<Rightarrow> stringify (JObj p) | None \<Rightarrow> [])
      in endpoint @ CHR '':'' # paramsString)"

text \<open>
  \<open>now\<close> is the value of \<^verbatim>\<open>Date.now()\<close> when the operation runs; an operation
  that scans the entries sees one value for the whole scan.
\<close>

definition isValid :: "int \<Rightarrow> int \<Rightarrow> cache_entry \<Rightarrow> bool" where
  "isValid duration now entry = (now - timestamp entry < duration)"

text \<open>\<^verbatim>\<open>get\<close>: \<open>JNull\<close> is the \<^verbatim>\<open>null\<close> returned on a miss.\<close>

definition get_cache ::
  "cache_manager \<Rightarrow> string \<Rightarrow> (string \<times> json) list option \<Rightarrow> int \<Rightarrow> json \<times> cache_manager" where
  "get_cache m endpoint params now =
     (let key = generateKey endpoint params in
      case map_of (cache m) key of
        Some entry \<Rightarrow>
          if isValid (cacheDuration m) now entry
          then (data entry,
                m\<lparr>console := console m @ [''[CACHE HIT] Using cached data for '' @ endpoint]\<rparr>)
          else (JNull, m)
      | None \<Rightarrow> (JNull, m))"

definition set_cache ::
  "bool \<Rightarrow> cache_manager \<Rightarrow> string \<Rightarrow> json \<Rightarrow> (string \<times> json) list option \<Rightarrow> int
   \<Rightarrow> cache_manager" where
  "set_cache ok m endpoint d params now =
     (let key = generateKey endpoint params in
      saveCache ok (m\<lparr>cache := AList.update key \<lparr>data = d, timestamp = now\<rparr> (cache m)\<rparr>))"

definition clear :: "bool \<Rightarrow> cache_manager \<Rightarrow> cache_manager" where
  "clear ok m =
     (let m1 = saveCache ok (m\<lparr>cache := []\<rparr>)
      in m1\<lparr>console := console m1 @ [''Cache cleared successfully'']\<rparr>)"

text \<open>
  Reading \<^verbatim>\<open>this.cache[key]\<close> for a key that is not there gives
  \<^verbatim>\<open>undefined\<close>, and \<^verbatim>\<open>isValid\<close> then fails with a TypeError on
  \<^verbatim>\<open>entry.timestamp\<close>.
\<close>

datatype exn = TypeError

text \<open>
  The \<^verbatim>\<open>forEach\<close> of \<^verbatim>\<open>cleanup\<close> over the keys taken at the start, with the map
  and \<^verbatim>\<open>removedCount\<close> as its state.
\<close>

fun cleanup_loop ::
  "int \<Rightarrow> int \<Rightarrow> string list \<Rightarrow> cache \<Rightarrow> nat \<Rightarrow> exn + (cache \<times> nat)" where
  "cleanup_loop duration now [] c removedCount = Inr (c, removedCount)"
| "cleanup_loop duration now (key # keys) c removedCount =
     (case map_of c key of
        None \<Rightarrow> Inl TypeError
      | Some entry \<Rightarrow>
          if \<not> isValid duration now entry
          then cleanup_loop duration now keys (AList.delete key c) (removedCount + 1)
          else cleanup_loop duration now keys c removedCount)"

definition cleanup :: "bool \<Rightarrow> cache_manager \<Rightarrow> int \<Rightarrow> exn + cache_manager" where
  "cleanup ok m now =
     (case cleanup_loop (cacheDuration m) now (map fst (cache m)) (cache m) 0 of
        Inl e \<Rightarrow> Inl e
      | Inr (c, removedCount) \<Rightarrow>
          (let m1 = m\<lparr>cache := c\<rparr> in
           if removedCount > 0
           then (let m2 = saveCache ok m1
                 in Inr (m2\<lparr>console := console m2 @
                      [''Removed '' @ show_nat removedCount @ '' expired cache entries'']\<rparr>))
           else Inr m1))"

record stats =
  totalEntries :: nat
  validEntries :: nat
  expiredEntries :: nat

text \<open>The \<^verbatim>\<open>keys.filter(key => this.isValid(this.cache[key]))\<close> of \<^verbatim>\<open>getStats\<close>.\<close>

fun filter_valid :: "int \<Rightarrow> int \<Rightarrow> cache \<Rightarrow> string list \<Rightarrow> exn + string list" where
  "filter_valid duration now c [] = Inr []"
| "filter_valid duration now c (key # keys) =
     (case map_of c key of
        None \<Rightarrow> Inl TypeError
      | Some entry \<Rightarrow>
          (case filter_valid duration now c keys of
             Inl e \<Rightarrow> Inl e
           | Inr rest \<Rightarrow> Inr (if isValid duration now entry then key # rest else rest)))"

definition getStats :: "cache_manager \<Rightarrow> int \<Rightarrow> exn + stats" where
  "getStats m now =
     (let keys = map fst (cache m) in
      case filter_valid (cacheDuration m) now (cache m) keys of
        Inl e \<Rightarrow> Inl e
      | Inr valid \<Rightarrow>
          Inr \<lparr>totalEntries = length keys,
               validEntries = length valid,
               expiredEntries = length keys - length valid\<rparr>)"

section \<open>The API client (\<^verbatim>\<open>src/apiClient.ts\<close>)\<close>

text \<open>
  What \<^verbatim>\<open>handleError\<close> reads of an \<^verbatim>\<open>AxiosError\<close>: its code, the response if
  one was received (status and decoded body), and its message.
\<close>

record axios_response =
  status :: int
  body :: json

record axios_error =
  code :: "string option"
  err_response :: "axios_response option"
  err_message :: string

text \<open>
  \<^verbatim>\<open>APIError\<close>: an \<^verbatim>\<open>Error\<close> with an optional status code and an optional raw
  response body. A plain \<^verbatim>\<open>new Error(msg)\<close> has neither.
\<close>

record api_error =
  message :: string
  statusCode :: "int option"
  response :: "json option"

definition Error :: "string \<Rightarrow> api_error" where
  "Error msg = \<lparr>message = msg, statusCode = None, response = None\<rparr>"

definition timeout :: nat where
  "timeout = 10000"

text \<open>
  \<^verbatim>\<open>handleError\<close> has return type \<^verbatim>\<open>never\<close>: every path ends in
  \<^verbatim>\<open>throw apiError\<close>, which is the \<open>Inl\<close> of the result.
\<close>

definition handleError :: "axios_error \<Rightarrow> api_error + json" where
  "handleError error =
     (if code error = Some ''ECONNABORTED''
      then Inl (Error (''Request timeout: The request took longer than '' @ show_nat timeout @ ''ms''))
      else if code error = Some ''ENOTFOUND'' \<or> code error = Some ''EAI_AGAIN''
      then Inl (Error (''Network error: Unable to connect to GitHub API. '' @
                       ''Please check your internet connection.''))
      else case err_response error of
        None \<Rightarrow> Inl (Error (''Network error: '' @ err_message error))
      | Some r \<Rightarrow>
          (let sc = status r in
           Inl \<lparr>message =
                 (if sc = 400 then ''Bad Request: Invalid parameters provided''
                  else if sc = 401
                    then ''Unauthorized: Invalid or missing authentication token''
                  else if sc = 403
                    then ''Rate limit exceeded: GitHub API rate limit reached. '' @
                         ''Please try again later.''
                  else if sc = 404 then ''Not Found: The requested resource does not exist''
                  else if sc = 422
                    then ''Validation Failed: The request contains invalid fields''
                  else if sc = 500 \<or> sc = 502 \<or> sc = 503
                    then ''Server Error: GitHub API is currently unavailable''
                  else ''HTTP Error '' @ show_int sc @ '': '' @ err_message error),
                statusCode = Some sc,
                response = Some (body r)\<rparr>))"

text \<open>
  The operator \<^verbatim>\<open>in\<close> finds own properties and properties of the prototype chain.
  The own properties of an array are its indices and \<^verbatim>\<open>length\<close>. The names that
  the prototypes of the runtime provide are the parameter \<open>inherited\<close>.
\<close>

fun hasOwn :: "json \<Rightarrow> string \<Rightarrow> bool" where
  "hasOwn (JObj kvs) field = (field \<in> set (map fst kvs))"
| "hasOwn (JArr xs) field = (field = ''length'' \<or> field \<in> set (map show_nat [0..<length xs]))"
| "hasOwn v field = False"

definition in_op :: "(json \<Rightarrow> string \<Rightarrow> bool) \<Rightarrow> string \<Rightarrow> json \<Rightarrow> bool" where
  "in_op inherited field d = (hasOwn d field \<or> inherited d field)"

definition missing_field :: "string \<Rightarrow> api_error" where
  "missing_field field =
     Error (''Invalid response: Missing required field '' @ [CHR 0x27] @ field @ [CHR 0x27])"

text \<open>The \<^verbatim>\<open>for (const field of requiredFields)\<close> of \<^verbatim>\<open>validateResponse\<close>.\<close>

fun check_fields ::
  "(json \<Rightarrow> string \<Rightarrow> bool) \<Rightarrow> json \<Rightarrow> string list \<Rightarrow> api_error + json" where
  "check_fields inherited d [] = Inr d"
| "check_fields inherited d (field # requiredFields) =
     (if \<not> in_op inherited field d then Inl (missing_field field)
      else check_fields inherited d requiredFields)"

definition validateResponse ::
  "(json \<Rightarrow> string \<Rightarrow> bool) \<Rightarrow> json \<Rightarrow> string list \<Rightarrow> api_error + json" where
  "validateResponse inherited d requiredFields =
     (if \<not> truthy d \<or> typeof d \<noteq> ''object''
      then Inl (Error ''Invalid response: Expected object but received invalid data'')
      else check_fields inherited d requiredFields)"

section \<open>The data service\<close>

text \<open>
  The four calls the data service makes on the API client. The client is a parameter
  \<open>api\<close> giving the outcome of each awaited call: \<open>Inl\<close> the error it throws, \<open>Inr\<close>
  the payload it returns.
\<close>

datatype api_call =
    ApiSearchRepositories string string int
  | ApiGetRepository string string
  | ApiGetUser string
  | ApiGetUserRepositories string string int

text \<open>
  The state of a \<^verbatim>\<open>DataService\<close>: its cache manager and the calls made on its API
  client so far.
\<close>

record data_service =
  cacheManager :: cache_manager
  apiCalls :: "api_call list"

text \<open>
  In each operation \<open>now\<close> is the time of the cache read and \<open>now'\<close> the time of the
  cache write after the fetch; \<open>ok\<close> is the outcome of the write of the cache file.
\<close>

definition searchRepositories ::
  "(api_call \<Rightarrow> api_error + json) \<Rightarrow> bool \<Rightarrow> int \<Rightarrow> int \<Rightarrow> data_service
   \<Rightarrow> string \<Rightarrow> string \<Rightarrow> int \<Rightarrow> (api_error + json) \<times> data_service" where
  "searchRepositories api ok now now' ds query sort_by perPage =
     (let cacheKey = ''search/repositories'';
          params = Some [(''q'', JStr query), (''sort'', JStr sort_by), (''per_page'', JNum perPage)];
          (cached, cm) = get_cache (cacheManager ds) cacheKey params now
      in if truthy cached then (Inr cached, ds\<lparr>cacheManager := cm\<rparr>)
         else (let call = ApiSearchRepositories query sort_by perPage;
                   ds1 = ds\<lparr>cacheManager := cm, apiCalls := apiCalls ds @ [call]\<rparr>
               in case api call of
                    Inl e \<Rightarrow> (Inl e, ds1)
                  | Inr d \<Rightarrow>
                      (Inr d, ds1\<lparr>cacheManager := set_cache ok cm cacheKey d params now'\<rparr>)))"

definition getRepository ::
  "(api_call \<Rightarrow> api_error + json) \<Rightarrow> bool \<Rightarrow> int \<Rightarrow> int \<Rightarrow> data_service
   \<Rightarrow> string \<Rightarrow> string \<Rightarrow> (api_error + json) \<times> data_service" where
  "getRepository api ok now now' ds owner repo =
     (let cacheKey = ''repos/'' @ owner @ ''/'' @ repo;
          (cached, cm) = get_cache (cacheManager ds) cacheKey None now
      in if truthy cached then (Inr cached, ds\<lparr>cacheManager := cm\<rparr>)
         else (let call = ApiGetRepository owner repo;
                   ds1 = ds\<lparr>cacheManager := cm, apiCalls := apiCalls ds @ [call]\<rparr>
               in case api call of
                    Inl e \<Rightarrow> (Inl e, ds1)
                  | Inr d \<Rightarrow>
                      (Inr d, ds1\<lparr>cacheManager := set_cache ok cm cacheKey d None now'\<rparr>)))"

definition getUser ::
  "(api_call \<Rightarrow> api_error + json) \<Rightarrow> bool \<Rightarrow> int \<Rightarrow> int \<Rightarrow> data_service
   \<Rightarrow> string \<Rightarrow> (api_error + json) \<times> data_service" where
  "getUser api ok now now' ds username =
     (let cacheKey = ''users/'' @ username;
          (cached, cm) = get_cache (cacheManager ds) cacheKey None now
      in if truthy cached then (Inr cached, ds\<lparr>cacheManager := cm\<rparr>)
         else (let call = ApiGetUser username;
                   ds1 = ds\<lparr>cacheManager := cm, apiCalls := apiCalls ds @ [call]\<rparr>
               in case api call of
                    Inl e \<Rightarrow> (Inl e, ds1)
                  | Inr d \<Rightarrow>
                      (Inr d, ds1\<lparr>cacheManager := set_cache ok cm cacheKey d None now'\<rparr>)))"

definition getUserRepositories ::
  "(api_call \<Rightarrow> api_error + json) \<Rightarrow> bool \<Rightarrow> int \<Rightarrow> int \<Rightarrow> data_service
   \<Rightarrow> string \<Rightarrow> string \<Rightarrow> int \<Rightarrow> (api_error + json) \<times> data_service" where
  "getUserRepositories api ok now now' ds username sort_by perPage =
     (let cacheKey = ''users/'' @ username @ ''/repos'';
          params = Some [(''sort'', JStr sort_by), (''per_page'', JNum perPage)];
          (cached, cm) = get_cache (cacheManager ds) cacheKey params now
      in if truthy cached then (Inr cached, ds\<lparr>cacheManager := cm\<rparr>)
         else (let call = ApiGetUserRepositories username sort_by perPage;
                   ds1 = ds\<lparr>cacheManager := cm, apiCalls := apiCalls ds @ [call]\<rparr>
               in case api call of
                    Inl e \<Rightarrow> (Inl e, ds1)
                  | Inr d \<Rightarrow>
                      (Inr d, ds1\<lparr>cacheManager := set_cache ok cm cacheKey d params now'\<rparr>)))"

subsection \<open>Filtering\<close>

text \<open>
  The fields of \<^verbatim>\<open>GitHubRepository\<close> that the filters and the lookup by id read;
  \<open>language\<close> is \<open>None\<close> for \<^verbatim>\<open>null\<close>.
\<close>

record repository =
  repo_id :: int
  full_name :: string
  language :: "string option"
  stargazers_count :: int
  archived :: bool

text \<open>\<^verbatim>\<open>FilterOptions\<close>: each criterion is optional (\<open>None\<close> for \<^verbatim>\<open>undefined\<close>).\<close>

record filter_options =
  flt_language :: "string option"
  minStars :: "int option"
  maxStars :: "int option"
  flt_archived :: "bool option"

text \<open>\<^verbatim>\<open>toLowerCase\<close> on the letters of ASCII.\<close>

definition lower_char :: "char \<Rightarrow> char" where
  "lower_char c =
     (case map_of (zip ''ABCDEFGHIJKLMNOPQRSTUVWXYZ'' ''abcdefghijklmnopqrstuvwxyz'') c of
        Some l \<Rightarrow> l
      | None \<Rightarrow> c)"

definition toLowerCase :: "string \<Rightarrow> string" where
  "toLowerCase s = map lower_char s"

text \<open>
  Each \<^verbatim>\<open>if\<close> of \<^verbatim>\<open>filterRepositories\<close> in turn. The first tests
  \<^verbatim>\<open>filters.language\<close> for truthiness, the others compare with
  \<^verbatim>\<open>undefined\<close>. Optional chaining gives \<^verbatim>\<open>undefined\<close> on
  \<^verbatim>\<open>null\<close>, here \<open>None\<close>.
\<close>

definition filterRepositories :: "repository list \<Rightarrow> filter_options \<Rightarrow> repository list" where
  "filterRepositories repositories filters =
     (let filtered = repositories;
          filtered =
            (if flt_language filters \<noteq> None \<and> flt_language filters \<noteq> Some []
             then filter (\<lambda>repo. map_option toLowerCase (language repo)
                                 = map_option toLowerCase (flt_language filters)) filtered
             else filtered);
          filtered =
            (if minStars filters \<noteq> None
             then filter (\<lambda>repo. stargazers_count repo \<ge> the (minStars filters)) filtered
             else filtered);
          filtered =
            (if maxStars filters \<noteq> None
             then filter (\<lambda>repo. stargazers_count repo \<le> the (maxStars filters)) filtered
             else filtered);
          filtered =
            (if flt_archived filters \<noteq> None
             then filter (\<lambda>repo. Some (archived repo) = flt_archived filters) filtered
             else filtered)
      in filtered)"

section \<open>The contracts in the words of the specification\<close>

text \<open>
  The filter criteria as the specification words them: a repository passes when it meets
  every criterion that was supplied, the language by equality up to case, the star bounds
  inclusively, the archived flag by equality.
\<close>

definition matches_supplied :: "filter_options \<Rightarrow> repository \<Rightarrow> bool" where
  "matches_supplied filters repo =
     ((case flt_language filters of
         None \<Rightarrow> True
       | Some l \<Rightarrow> (case language repo of
                      None \<Rightarrow> False
                    | Some rl \<Rightarrow> toLowerCase rl = toLowerCase l))
      \<and> (case minStars filters of None \<Rightarrow> True | Some n \<Rightarrow> n \<le> stargazers_count repo)
      \<and> (case maxStars filters of None \<Rightarrow> True | Some n \<Rightarrow> stargazers_count repo \<le> n)
      \<and> (case flt_archived filters of None \<Rightarrow> True | Some a \<Rightarrow> archived repo = a))"

text \<open>
  The contract of a read operation of the data service, in terms of the cache read it starts
  with: \<open>cached\<close> is what \<^verbatim>\<open>get\<close> returns and \<open>cm\<close> the cache manager after
  it. On a hit the cached payload is the result, the API client is not called and nothing is
  stored. On a miss the API client is called once with \<open>call\<close>; its error is the result
  and nothing is stored, or its payload is stored with \<^verbatim>\<open>set\<close> and is the result.
  The operations take a truthy value of \<^verbatim>\<open>get\<close> for a hit.
\<close>

definition read_contract ::
  "(api_call \<Rightarrow> api_error + json) \<Rightarrow> bool \<Rightarrow> int \<Rightarrow> int \<Rightarrow> data_service \<Rightarrow> string
   \<Rightarrow> (string \<times> json) list option \<Rightarrow> api_call \<Rightarrow> (api_error + json) \<times> data_service \<Rightarrow> bool" where
  "read_contract api ok now now' ds cacheKey params call out =
     (let cached = fst (get_cache (cacheManager ds) cacheKey params now);
          cm = snd (get_cache (cacheManager ds) cacheKey params now)
      in (truthy cached \<longrightarrow>
            fst out = Inr cached
          \<and> apiCalls (snd out) = apiCalls ds
          \<and> cache (cacheManager (snd out)) = cache (cacheManager ds)
          \<and> cacheFile (cacheManager (snd out)) = cacheFile (cacheManager ds)
          \<and> saves (cacheManager (snd out)) = saves (cacheManager ds))
       \<and> (\<not> truthy cached \<longrightarrow>
            apiCalls (snd out) = apiCalls ds @ [call]
          \<and> (\<forall>e. api call = Inl e \<longrightarrow>
                fst out = Inl e
              \<and> cache (cacheManager (snd out)) = cache (cacheManager ds)
              \<and> cacheFile (cacheManager (snd out)) = cacheFile (cacheManager ds)
              \<and> saves (cacheManager (snd out)) = saves (cacheManager ds))
          \<and> (\<forall>d. api call = Inr d \<longrightarrow>
                fst out = Inr d
              \<and> cacheManager (snd out) = set_cache ok cm cacheKey d params now')))"

section \<open>Sample states\<close>

definition m_demo :: cache_manager where
  "m_demo = \<lparr>cache = [(''users/octocat:'', \<lparr>data = JObj [(''login'', JStr ''octocat'')], timestamp = 1000\<rparr>)],
             cacheDuration = 300000, cacheFile = None, saves = 0, console = []\<rparr>"

definition m_boundary :: cache_manager where
  "m_boundary = \<lparr>cache = [(''users/octocat:'', \<lparr>data = JObj [(''login'', JStr ''octocat'')], timestamp = 0\<rparr>),
                          (''users/hubot:'', \<lparr>data = JObj [(''login'', JStr ''hubot'')], timestamp = 1\<rparr>)],
             cacheDuration = 300000, cacheFile = None, saves = 0, console = []\<rparr>"

definition ds_demo :: data_service where
  "ds_demo = \<lparr>cacheManager = m_demo, apiCalls = []\<rparr>"

definition api_demo :: "api_call \<Rightarrow> api_error + json" where
  "api_demo call =
     (case call of
        ApiGetUser username \<Rightarrow> Inr (JObj [(''login'', JStr username)])
      | _ \<Rightarrow> Inl (Error ''Not Found: The requested resource does not exist''))"

definition star_repo :: "int \<Rightarrow> repository" where
  "star_repo n = \<lparr>repo_id = n, full_name = ''octocat/hello'', language = Some ''TypeScript'',
                  stargazers_count = n, archived = False\<rparr>"

section \<open>Key generation\<close>

lemma escape_char_cases:
  "escape_char c = [c] \<and> c \<noteq> CHR 0x5C \<and> c \<noteq> CHR 0x22
   \<or> (\<exists>r. escape_char c = CHR 0x5C # r)"
  by (simp add: escape_char_def)

lemma escape_char_not_quote: "escape_char c \<noteq> [] \<and> hd (escape_char c) \<noteq> CHR 0x22"
  by (simp add: escape_char_def)

lemma hex_digit_inj:
  assumes "a < 16" "b < 16" "hex_digit a = hex_digit b"
  shows "a = b"
proof -
  have "distinct ''0123456789abcdef''" by simp
  moreover have "a < length ''0123456789abcdef''" "b < length ''0123456789abcdef''"
    using assms(1,2) by simp_all
  ultimately show ?thesis
    using assms(3) unfolding hex_digit_def by (simp only: nth_eq_iff_index_eq)
qed

lemma low_char_eq:
  assumes "(of_char c :: nat) < 0x20" "(of_char d :: nat) < 0x20"
    and "hex_digit ((of_char c :: nat) div 16) = hex_digit ((of_char d :: nat) div 16)"
    and "hex_digit ((of_char c :: nat) mod 16) = hex_digit ((of_char d :: nat) mod 16)"
  shows "c = d"
proof -
  have "(of_char c :: nat) div 16 = (of_char d :: nat) div 16"
    using assms(1,2,3) by (intro hex_digit_inj) auto
  moreover have "(of_char c :: nat) mod 16 = (of_char d :: nat) mod 16"
    using assms(4) by (intro hex_digit_inj) auto
  ultimately have "(of_char c :: nat) = of_char d"
    by (metis div_mult_mod_eq)
  then show ?thesis by simp
qed

text \<open>The escapes form a prefix code: the first escape of a text determines its character.\<close>

lemma escape_char_prefix_code:
  assumes "escape_char c @ u = escape_char d @ v"
  shows "c = d"
proof -
  have cc: "escape_char c \<noteq> [c] \<Longrightarrow> \<exists>r. escape_char c = CHR 0x5C # r"
    using escape_char_cases[of c] by auto
  have dd: "escape_char d \<noteq> [d] \<Longrightarrow> \<exists>r. escape_char d = CHR 0x5C # r"
    using escape_char_cases[of d] by auto
  have cb: "escape_char c = [c] \<Longrightarrow> c \<noteq> CHR 0x5C"
    by (auto simp: escape_char_def)
  have db: "escape_char d = [d] \<Longrightarrow> d \<noteq> CHR 0x5C"
    by (auto simp: escape_char_def)
  consider (pp) "escape_char c = [c]" "escape_char d = [d]"
    | (pe) "escape_char c = [c]" "c \<noteq> CHR 0x5C" "\<exists>r. escape_char d = CHR 0x5C # r"
    | (ep) "escape_char d = [d]" "d \<noteq> CHR 0x5C" "\<exists>r. escape_char c = CHR 0x5C # r"
    | (ee) "escape_char c \<noteq> [c]" "escape_char d \<noteq> [d]"
    using cc dd cb db by (cases "escape_char c = [c]"; cases "escape_char d = [d]") auto
  then show ?thesis
  proof cases
    case pp with assms show ?thesis by simp
  next
    case pe with assms show ?thesis by auto
  next
    case ep with assms show ?thesis by auto
  next
    case ee
    have c: "(of_char c :: nat) < 0x20 \<or> c = CHR 0x22 \<or> c = CHR 0x5C"
      using ee(1) by (auto simp: escape_char_def split: if_splits)
    have d: "(of_char d :: nat) < 0x20 \<or> d = CHR 0x22 \<or> d = CHR 0x5C"
      using ee(2) by (auto simp: escape_char_def split: if_splits)
    show ?thesis
      using assms c d
      by (auto simp: escape_char_def split: if_splits intro: low_char_eq)
  qed
qed

lemma escape_prefix_free:
  "concat (map escape_char s) @ CHR 0x22 # x = concat (map escape_char t) @ CHR 0x22 # y
   \<Longrightarrow> s = t"
proof (induction s arbitrary: t)
  case Nil
  show ?case
  proof (cases t)
    case Nil then show ?thesis by simp
  next
    case (Cons d t')
    obtain e es where "escape_char d = e # es" "e \<noteq> CHR 0x22"
      using escape_char_not_quote[of d] by (cases "escape_char d") auto
    with Nil Cons show ?thesis by simp
  qed
next
  case (Cons c s)
  show ?case
  proof (cases t)
    case Nil
    obtain e es where "escape_char c = e # es" "e \<noteq> CHR 0x22"
      using escape_char_not_quote[of c] by (cases "escape_char c") auto
    with Cons.prems Nil show ?thesis by simp
  next
    case (Cons d t')
    from Cons.prems Cons
    have eq: "escape_char c @ (concat (map escape_char s) @ CHR 0x22 # x)
            = escape_char d @ (concat (map escape_char t') @ CHR 0x22 # y)"
      by simp
    then have "c = d" by (rule escape_char_prefix_code)
    with eq have "concat (map escape_char s) @ CHR 0x22 # x
                = concat (map escape_char t') @ CHR 0x22 # y"
      by simp
    then have "s = t'" by (rule Cons.IH)
    with \<open>c = d\<close> Cons show ?thesis by simp
  qed
qed

lemma quote_prefix_free: "quote s @ x = quote t @ y \<Longrightarrow> s = t"
  unfolding quote_def using escape_prefix_free[of s "x" t "y"] by simp

lemma stringify_props_defined:
  "\<forall>(k, v) \<in> set P. v \<noteq> JUndefined \<Longrightarrow>
   stringify_props P = map (\<lambda>(k, v). quote k @ CHR '':'' # stringify v) P"
  by (induction P) auto

lemma join_comma_Cons:
  "join_comma (x # xs) = x @ (if xs = [] then [] else CHR '','' # join_comma xs)"
  by (cases xs) auto

lemma props_order_sensitive:
  assumes "distinct (map fst P1)" "distinct (map fst P2)" "set P1 = set P2"
    and "\<forall>(k, v) \<in> set P1. v \<noteq> JUndefined"
    and "join_comma (stringify_props P1) = join_comma (stringify_props P2)"
  shows "P1 = P2"
  using assms
proof (induction P1 arbitrary: P2)
  case Nil
  then show ?case by simp
next
  case (Cons p r1)
  then obtain q r2 where P2: "P2 = q # r2" by (cases P2) auto
  obtain k1 v1 where p: "p = (k1, v1)" by (cases p)
  obtain k2 v2 where q: "q = (k2, v2)" by (cases q)
  have def1: "\<forall>(k, v) \<in> set (p # r1). v \<noteq> JUndefined" by (rule Cons.prems(4))
  have def2: "\<forall>(k, v) \<in> set (q # r2). v \<noteq> JUndefined"
    using Cons.prems(3,4) P2 by simp
  let ?f = "\<lambda>(k, v). quote k @ CHR '':'' # stringify v"
  let ?t1 = "(if map ?f r1 = [] then [] else CHR '','' # join_comma (map ?f r1))"
  let ?t2 = "(if map ?f r2 = [] then [] else CHR '','' # join_comma (map ?f r2))"
  have eq: "quote k1 @ (CHR '':'' # stringify v1 @ ?t1)
          = quote k2 @ (CHR '':'' # stringify v2 @ ?t2)"
    using Cons.prems(5)
    unfolding P2 stringify_props_defined[OF def1] stringify_props_defined[OF def2]
    by (simp add: p q join_comma_Cons del: join_comma.simps)
  then have k: "k1 = k2" by (rule quote_prefix_free)
  have "(k1, v1) \<in> set (q # r2)" using Cons.prems(3) P2 p by auto
  moreover have "k2 \<notin> fst ` set r2" using Cons.prems(2) P2 q by simp
  ultimately have v: "v1 = v2" using k q by force
  have pq: "p = q" using k v p q by simp
  have "p \<notin> set r1" using Cons.prems(1) by (force simp: p)
  moreover have "q \<notin> set r2" using Cons.prems(2) P2 by (force simp: q)
  ultimately have sets: "set r1 = set r2" using Cons.prems(3) P2 pq by auto
  then have empty: "r1 = [] \<longleftrightarrow> r2 = []" by auto
  have "?t1 = ?t2" using eq k v by simp
  then have "join_comma (map ?f r1) = join_comma (map ?f r2)"
    using empty by (auto split: if_splits)
  moreover have d1: "\<forall>(k, v) \<in> set r1. v \<noteq> JUndefined" using def1 by simp
  moreover have d2: "\<forall>(k, v) \<in> set r2. v \<noteq> JUndefined" using def2 by simp
  ultimately have "join_comma (stringify_props r1) = join_comma (stringify_props r2)"
    by (simp add: stringify_props_defined)
  with Cons.IH[of r2] Cons.prems(1,2) P2 sets d1 have "r1 = r2" by simp
  with pq P2 show ?case by simp
qed

text \<open>
  C9. For every endpoint, the key derived without a parameter argument differs from the key
  derived for the same endpoint with an empty parameter object: the first ends in the
  colon, the second in \<^verbatim>\<open>{}\<close>.
\<close>

theorem generateKey_absent_vs_empty:
  "generateKey endpoint None \<noteq> generateKey endpoint (Some [])
   \<and> generateKey endpoint None = endpoint @ '':''
   \<and> generateKey endpoint (Some []) = endpoint @ '':{}''"
  by (simp add: generateKey_def)

text \<open>
  C1, as the code has it. \<^verbatim>\<open>generateKey\<close> serialises the parameters with
  \<^verbatim>\<open>JSON.stringify\<close> in their enumeration order and does not sort them by name.
  For every endpoint and every two parameter objects that are equal as sets of (name, value)
  pairs, with no value \<^verbatim>\<open>undefined\<close>, the two keys are equal if and only if the
  pairs are listed in the same order.
\<close>

theorem generateKey_order_sensitive:
  assumes "distinct (map fst P1)" "distinct (map fst P2)" "set P1 = set P2"
    and "\<forall>(k, v) \<in> set P1. v \<noteq> JUndefined"
  shows "generateKey endpoint (Some P1) = generateKey endpoint (Some P2) \<longleftrightarrow> P1 = P2"
  using props_order_sensitive[OF assms] by (auto simp: generateKey_def)

theorem generateKey_order_sensitive_witness:
  "generateKey ''users/octocat/repos'' (Some [(''sort'', JStr ''updated''), (''per_page'', JNum 30)])
     \<noteq> generateKey ''users/octocat/repos'' (Some [(''per_page'', JNum 30), (''sort'', JStr ''updated'')])"
proof -
  let ?P1 = "[(''sort'', JStr ''updated''), (''per_page'', JNum 30)]"
  let ?P2 = "[(''per_page'', JNum 30), (''sort'', JStr ''updated'')]"
  have 1: "distinct (map fst ?P1)" by simp
  have 2: "distinct (map fst ?P2)" by simp
  have 3: "set ?P1 = set ?P2" by auto
  have 4: "\<forall>(k, v) \<in> set ?P1. v \<noteq> JUndefined" by simp
  have "?P1 \<noteq> ?P2" by simp
  with generateKey_order_sensitive[OF 1 2 3 4, of "''users/octocat/repos''"]
  show ?thesis by blast
qed

text \<open>
  Two parameter objects with the same two pairs, built in different orders, get different
  keys for the same endpoint.
\<close>

theorem generateKey_order_counterexample:
  "set [(''q'', JStr ''cli''), (''sort'', JStr ''stars'')]
     = set [(''sort'', JStr ''stars''), (''q'', JStr ''cli'')]
   \<and> generateKey ''search/repositories'' (Some [(''q'', JStr ''cli''), (''sort'', JStr ''stars'')])
       = ''search/repositories:{'' @ [CHR 0x22] @ ''q'' @ [CHR 0x22] @ '':'' @ [CHR 0x22] @ ''cli'' @ [CHR 0x22]
          @ '','' @ [CHR 0x22] @ ''sort'' @ [CHR 0x22] @ '':'' @ [CHR 0x22] @ ''stars'' @ [CHR 0x22] @ ''}''
   \<and> generateKey ''search/repositories'' (Some [(''sort'', JStr ''stars''), (''q'', JStr ''cli'')])
       = ''search/repositories:{'' @ [CHR 0x22] @ ''sort'' @ [CHR 0x22] @ '':'' @ [CHR 0x22] @ ''stars'' @ [CHR 0x22]
          @ '','' @ [CHR 0x22] @ ''q'' @ [CHR 0x22] @ '':'' @ [CHR 0x22] @ ''cli'' @ [CHR 0x22] @ ''}''
   \<and> generateKey ''search/repositories'' (Some [(''q'', JStr ''cli''), (''sort'', JStr ''stars'')])
       \<noteq> generateKey ''search/repositories'' (Some [(''sort'', JStr ''stars''), (''q'', JStr ''cli'')])"
  by (simp add: generateKey_def quote_def escape_char_def insert_commute)

section \<open>The cache store\<close>

subsection \<open>The scans of \<^verbatim>\<open>cleanup\<close> and \<^verbatim>\<open>getStats\<close>\<close>

lemma length_delete_present:
  "distinct (map fst c) \<Longrightarrow> map_of c key = Some e \<Longrightarrow> Suc (length (AList.delete key c)) = length c"
proof (induction c)
  case Nil
  then show ?case by simp
next
  case (Cons p c)
  show ?case
  proof (cases "fst p = key")
    case True
    then have "key \<notin> fst ` set c" using Cons.prems(1) by auto
    then show ?thesis using True by simp
  next
    case False
    then show ?thesis using Cons by simp
  qed
qed

lemma cleanup_loop_result:
  assumes "distinct (map fst c)" "distinct ks" "set ks \<subseteq> fst ` set c"
  shows "cleanup_loop d now ks c n =
           Inr (filter (\<lambda>(k, en). k \<notin> set ks \<or> isValid d now en) c,
                n + (length c - length (filter (\<lambda>(k, en). k \<notin> set ks \<or> isValid d now en) c)))"
  using assms
proof (induction ks arbitrary: c n)
  case Nil
  then show ?case by simp
next
  case (Cons key ks)
  from Cons.prems(3) obtain entry where look: "map_of c key = Some entry"
    by (cases "map_of c key") (auto simp: map_of_eq_None_iff)
  have uniq: "\<And>k e. (k, e) \<in> set c \<Longrightarrow> k = key \<Longrightarrow> e = entry"
    using look Cons.prems(1) by (metis map_of_is_SomeI option.inject)
  show ?case
  proof (cases "isValid d now entry")
    case True
    have "cleanup_loop d now (key # ks) c n = cleanup_loop d now ks c n"
      using look True by simp
    also have "\<dots> = Inr (filter (\<lambda>(k, en). k \<notin> set ks \<or> isValid d now en) c,
                n + (length c - length (filter (\<lambda>(k, en). k \<notin> set ks \<or> isValid d now en) c)))"
      using Cons.prems by (intro Cons.IH) auto
    also have "filter (\<lambda>(k, en). k \<notin> set ks \<or> isValid d now en) c
             = filter (\<lambda>(k, en). k \<notin> set (key # ks) \<or> isValid d now en) c"
      using uniq True by (intro filter_cong) auto
    finally show ?thesis .
  next
    case False
    let ?c' = "AList.delete key c"
    let ?P = "\<lambda>(k, en). k \<notin> set ks \<or> isValid d now en"
    let ?Q = "\<lambda>(k, en). k \<notin> set (key # ks) \<or> isValid d now en"
    have c': "?c' = filter (\<lambda>(k, en). k \<noteq> key) c"
      by (auto simp: AList.delete_eq case_prod_unfold intro: filter_cong)
    have len: "Suc (length ?c') = length c"
      using Cons.prems(1) look by (rule length_delete_present)
    have pre1: "distinct (map fst ?c')"
      using Cons.prems(1) by (rule distinct_delete)
    have pre2: "distinct ks" using Cons.prems(2) by simp
    have "fst ` set ?c' = fst ` set c - {key}"
      unfolding c' by force
    then have pre3: "set ks \<subseteq> fst ` set ?c'"
      using Cons.prems(2,3) by auto
    note pre = pre1 pre2 pre3
    have flt: "filter ?P ?c' = filter ?Q c"
      unfolding c' filter_filter using uniq False by (intro filter_cong) auto
    have le: "length (filter ?P ?c') \<le> length ?c'" by (rule length_filter_le)
    have "cleanup_loop d now (key # ks) c n = cleanup_loop d now ks ?c' (n + 1)"
      using look False by simp
    also have "\<dots> = Inr (filter ?P ?c', (n + 1) + (length ?c' - length (filter ?P ?c')))"
      using pre by (rule Cons.IH)
    also have "(n + 1) + (length ?c' - length (filter ?P ?c'))
             = n + (length c - length (filter ?P ?c'))"
      using len le by arith
    finally show ?thesis unfolding flt .
  qed
qed

lemma cleanup_loop_all:
  assumes "distinct (map fst c)"
  shows "cleanup_loop d now (map fst c) c 0 =
           Inr (filter (\<lambda>(k, en). isValid d now en) c,
                length (filter (\<lambda>(k, en). \<not> isValid d now en) c))"
proof -
  let ?V = "\<lambda>(k, en). isValid d now en"
  have flt: "filter (\<lambda>(k, en). k \<notin> set (map fst c) \<or> isValid d now en) c = filter ?V c"
    by (intro filter_cong) force+
  have "length (filter ?V c) + length (filter (\<lambda>x. \<not> ?V x) c) = length c"
    by (rule sum_length_filter_compl)
  moreover have "filter (\<lambda>x. \<not> ?V x) c = filter (\<lambda>(k, en). \<not> isValid d now en) c"
    by (intro filter_cong) auto
  ultimately have cnt: "length c - length (filter ?V c)
                      = length (filter (\<lambda>(k, en). \<not> isValid d now en) c)"
    by simp
  have sub: "set (map fst c) \<subseteq> fst ` set c" by simp
  show ?thesis
    using cleanup_loop_result[OF assms assms sub, of d now 0]
    unfolding flt cnt by simp
qed

lemma filter_valid_sub:
  assumes "\<forall>(k, en) \<in> set xs. map_of c k = Some en"
  shows "filter_valid d now c (map fst xs) =
           Inr (map fst (filter (\<lambda>(k, en). isValid d now en) xs))"
  using assms by (induction xs) auto

lemma filter_valid_all:
  assumes "distinct (map fst c)"
  shows "filter_valid d now c (map fst c) =
           Inr (map fst (filter (\<lambda>(k, en). isValid d now en) c))"
  using assms by (intro filter_valid_sub) auto

lemma getStats_distinct:
  assumes "distinct (map fst (cache m))"
  shows "getStats m now =
           Inr \<lparr>totalEntries = length (cache m),
                validEntries = length (filter (\<lambda>(k, en). isValid (cacheDuration m) now en) (cache m)),
                expiredEntries = length (filter (\<lambda>(k, en). \<not> isValid (cacheDuration m) now en) (cache m))\<rparr>"
proof -
  let ?V = "\<lambda>(k, en). isValid (cacheDuration m) now en"
  have "length (filter ?V (cache m)) + length (filter (\<lambda>x. \<not> ?V x) (cache m)) = length (cache m)"
    by (rule sum_length_filter_compl)
  moreover have "filter (\<lambda>x. \<not> ?V x) (cache m)
               = filter (\<lambda>(k, en). \<not> isValid (cacheDuration m) now en) (cache m)"
    by (intro filter_cong) auto
  ultimately have "length (cache m) - length (filter ?V (cache m))
                 = length (filter (\<lambda>(k, en). \<not> isValid (cacheDuration m) now en) (cache m))"
    by simp
  then show ?thesis
    by (simp add: getStats_def filter_valid_all[OF assms])
qed

lemma cleanup_distinct:
  assumes "distinct (map fst (cache m))"
  shows "cleanup ok m now =
     (let kept = filter (\<lambda>(k, en). isValid (cacheDuration m) now en) (cache m);
          removedCount = length (filter (\<lambda>(k, en). \<not> isValid (cacheDuration m) now en) (cache m));
          m1 = m\<lparr>cache := kept\<rparr>
      in if removedCount > 0
         then Inr ((saveCache ok m1)\<lparr>console := console (saveCache ok m1) @
                [''Removed '' @ show_nat removedCount @ '' expired cache entries'']\<rparr>)
         else Inr m1)"
  by (simp add: cleanup_def cleanup_loop_all[OF assms] Let_def)

lemma cleanup_cache:
  assumes "distinct (map fst (cache m))"
  shows "\<exists>m'. cleanup ok m now = Inr m'
     \<and> cache m' = filter (\<lambda>(k, en). now - timestamp en < cacheDuration m) (cache m)"
  by (simp add: cleanup_distinct[OF assms] Let_def saveCache_def isValid_def)

lemma length_filter_delete:
  assumes "distinct (map fst c)" "(k, e) \<in> set c"
  shows "length (filter P c) = (if P (k, e) then 1 else 0) + length (filter P (AList.delete k c))"
  using assms
proof (induction c)
  case Nil
  then show ?case by simp
next
  case (Cons p c)
  show ?case
  proof (cases "p = (k, e)")
    case True
    then have "k \<notin> fst ` set c" using Cons.prems(1) by auto
    then show ?thesis using True by simp
  next
    case False
    then have in_c: "(k, e) \<in> set c" using Cons.prems(2) by simp
    then have "k \<in> fst ` set c" by force
    then have "fst p \<noteq> k" using Cons.prems(1) by auto
    then show ?thesis using Cons.IH in_c Cons.prems(1) by simp
  qed
qed

subsection \<open>Reading and writing\<close>

text \<open>
  C2. For every cache state, endpoint and parameter set, \<^verbatim>\<open>get\<close> returns the stored
  payload when an entry exists under the derived key and \<open>now - timestamp < TTL\<close> holds
  strictly, and \<^verbatim>\<open>null\<close> otherwise; whatever it returns that is not
  \<^verbatim>\<open>null\<close> is the payload of such an entry. The call leaves the map, the cache file
  and the number of saves as they were, so an expired entry stays in the store.
\<close>

theorem get_cache_correct:
  "(\<forall>entry. map_of (cache m) (generateKey endpoint params) = Some entry
        \<and> now - timestamp entry < cacheDuration m
      \<longrightarrow> fst (get_cache m endpoint params now) = data entry)
   \<and> ((\<nexists>entry. map_of (cache m) (generateKey endpoint params) = Some entry
        \<and> now - timestamp entry < cacheDuration m)
      \<longrightarrow> fst (get_cache m endpoint params now) = JNull)
   \<and> (fst (get_cache m endpoint params now) \<noteq> JNull
      \<longrightarrow> (\<exists>entry. map_of (cache m) (generateKey endpoint params) = Some entry
            \<and> now - timestamp entry < cacheDuration m
            \<and> fst (get_cache m endpoint params now) = data entry))
   \<and> cache (snd (get_cache m endpoint params now)) = cache m
   \<and> cacheFile (snd (get_cache m endpoint params now)) = cacheFile m
   \<and> saves (snd (get_cache m endpoint params now)) = saves m
   \<and> cacheDuration (snd (get_cache m endpoint params now)) = cacheDuration m"
  by (auto simp: get_cache_def isValid_def Let_def split: option.splits)

theorem get_cache_correct_witness:
  "fst (get_cache m_demo ''users/octocat'' None 301000) = JNull
   \<and> cache (snd (get_cache m_demo ''users/octocat'' None 301000)) = cache m_demo
   \<and> fst (get_cache m_demo ''users/octocat'' None 300999) = JObj [(''login'', JStr ''octocat'')]"
proof -
  have k: "generateKey ''users/octocat'' None = ''users/octocat:''"
    by (simp add: generateKey_def)
  have look: "map_of (cache m_demo) ''users/octocat:''
            = Some \<lparr>data = JObj [(''login'', JStr ''octocat'')], timestamp = 1000\<rparr>"
    by (simp add: m_demo_def)
  show ?thesis
    using get_cache_correct[of m_demo "''users/octocat''" None 301000]
          get_cache_correct[of m_demo "''users/octocat''" None 300999]
    by (simp add: k look m_demo_def)
qed

text \<open>
  C7. For every endpoint, parameter set and payload, and every earlier state of the store
  (with or without an entry under the same key): \<^verbatim>\<open>set\<close> at time \<open>now\<close>
  followed by \<^verbatim>\<open>get\<close> at a time \<open>now'\<close> with \<open>now' - now < TTL\<close> returns
  exactly the payload written, whether or not the cache file could be written.
\<close>

theorem set_then_get:
  assumes "now' - now < cacheDuration m"
  shows "fst (get_cache (set_cache ok m endpoint d params now) endpoint params now') = d"
  using assms
  by (simp add: get_cache_def set_cache_def saveCache_def isValid_def Let_def update_conv')

theorem set_then_get_witness:
  "fst (get_cache (set_cache False m_demo ''users/octocat'' (JStr ''new'') None 2000)
          ''users/octocat'' None 301999) = JStr ''new''"
proof -
  have "(301999::int) - 2000 < cacheDuration m_demo" by (simp add: m_demo_def)
  then show ?thesis by (rule set_then_get)
qed

subsection \<open>Expiry\<close>

text \<open>
  C4, as the code has it. For every cache state (an object, so with distinct keys),
  \<^verbatim>\<open>cleanup\<close> keeps exactly the entries with \<open>now - timestamp < TTL\<close>, each with
  its key, data and timestamp and in their order, and removes the others, those whose age
  is at least the TTL. It saves the map exactly when at least one entry was removed, and
  then the file holds the kept entries if the write succeeds. The statistics before count
  the removed entries as expired; the statistics after have the total lowered by the
  removed count, the same valid count and no expired entry.
\<close>

theorem cleanup_removes_expired:
  assumes "distinct (map fst (cache m))"
  shows "\<exists>m'. cleanup ok m now = Inr m'
     \<and> cache m' = filter (\<lambda>(k, en). now - timestamp en < cacheDuration m) (cache m)
     \<and> cacheDuration m' = cacheDuration m
     \<and> (let removed = length (filter (\<lambda>(k, en). now - timestamp en \<ge> cacheDuration m) (cache m)) in
          saves m' = (if removed > 0 then saves m + 1 else saves m)
        \<and> cacheFile m' = (if removed > 0 \<and> ok then Some (cache m') else cacheFile m)
        \<and> getStats m now = Inr \<lparr>totalEntries = length (cache m),
                                  validEntries = length (cache m'),
                                  expiredEntries = removed\<rparr>
        \<and> getStats m' now = Inr \<lparr>totalEntries = length (cache m) - removed,
                                   validEntries = length (cache m'),
                                   expiredEntries = 0\<rparr>)"
proof -
  let ?V = "\<lambda>(k, en). isValid (cacheDuration m) now en"
  let ?kept = "filter ?V (cache m)"
  let ?removed = "length (filter (\<lambda>(k, en). \<not> isValid (cacheDuration m) now en) (cache m))"
  let ?m1 = "m\<lparr>cache := ?kept\<rparr>"
  let ?m2 = "(saveCache ok ?m1)\<lparr>console := console (saveCache ok ?m1) @
                [''Removed '' @ show_nat ?removed @ '' expired cache entries'']\<rparr>"
  let ?m' = "if ?removed > 0 then ?m2 else ?m1"
  have res: "cleanup ok m now = Inr ?m'"
    by (simp add: cleanup_distinct[OF assms] Let_def)
  have V: "?V = (\<lambda>(k, en). now - timestamp en < cacheDuration m)"
    by (simp add: isValid_def)
  have nV: "(\<lambda>(k, en). \<not> isValid (cacheDuration m) now en)
          = (\<lambda>(k, en). now - timestamp en \<ge> cacheDuration m)"
    by (auto simp: isValid_def fun_eq_iff)
  have c': "cache ?m' = ?kept" by (simp add: saveCache_def)
  have d': "cacheDuration ?m' = cacheDuration m" by (simp add: saveCache_def)
  have s': "saves ?m' = (if ?removed > 0 then saves m + 1 else saves m)"
    by (simp add: saveCache_def)
  have f': "cacheFile ?m' = (if ?removed > 0 \<and> ok then Some (cache ?m') else cacheFile m)"
    by (simp add: saveCache_def)
  have st: "getStats m now = Inr \<lparr>totalEntries = length (cache m),
                                  validEntries = length ?kept,
                                  expiredEntries = ?removed\<rparr>"
    by (rule getStats_distinct[OF assms])
  have dist': "distinct (map fst (cache ?m'))"
    unfolding c' using assms by (rule distinct_map_filter)
  have "length ?kept + length (filter (\<lambda>x. \<not> ?V x) (cache m)) = length (cache m)"
    by (rule sum_length_filter_compl)
  moreover have "filter (\<lambda>x. \<not> ?V x) (cache m)
               = filter (\<lambda>(k, en). \<not> isValid (cacheDuration m) now en) (cache m)"
    by (intro filter_cong) auto
  ultimately have len: "length ?kept = length (cache m) - ?removed" by simp
  have kk: "filter ?V ?kept = ?kept" by simp
  have ke: "filter (\<lambda>(k, en). \<not> isValid (cacheDuration m) now en) ?kept = []"
    by (auto simp: filter_empty_conv)
  have st': "getStats ?m' now = Inr \<lparr>totalEntries = length (cache m) - ?removed,
                                   validEntries = length ?kept,
                                   expiredEntries = 0\<rparr>"
    using getStats_distinct[OF dist', of now] unfolding c' d' kk ke len by simp
  show ?thesis
    apply (rule exI[of _ ?m'])
    unfolding Let_def V[symmetric] nV[symmetric]
    using res c' d' s' f' st st' by (simp only: simp_thms)
qed

theorem cleanup_removes_expired_witness:
  "distinct (map fst (cache m_boundary))
   \<and> (\<exists>m'. cleanup True m_boundary 300000 = Inr m'
        \<and> cache m' = [(''users/hubot:'', \<lparr>data = JObj [(''login'', JStr ''hubot'')], timestamp = 1\<rparr>)]
        \<and> saves m' = 1
        \<and> getStats m_boundary 300000 = Inr \<lparr>totalEntries = 2, validEntries = 1, expiredEntries = 1\<rparr>
        \<and> getStats m' 300000 = Inr \<lparr>totalEntries = 1, validEntries = 1, expiredEntries = 0\<rparr>)"
proof -
  have h: "distinct (map fst (cache m_boundary))" by (simp add: m_boundary_def)
  from cleanup_removes_expired[OF h, of True 300000]
  obtain m' where "cleanup True m_boundary 300000 = Inr m'"
    and "cache m' = filter (\<lambda>(k, en). 300000 - timestamp en < cacheDuration m_boundary) (cache m_boundary)"
    and "(let removed = length (filter (\<lambda>(k, en). 300000 - timestamp en \<ge> cacheDuration m_boundary) (cache m_boundary)) in
          saves m' = (if removed > 0 then saves m_boundary + 1 else saves m_boundary)
        \<and> cacheFile m' = (if removed > 0 \<and> True then Some (cache m') else cacheFile m_boundary)
        \<and> getStats m_boundary 300000 = Inr \<lparr>totalEntries = length (cache m_boundary),
                                  validEntries = length (cache m'),
                                  expiredEntries = removed\<rparr>
        \<and> getStats m' 300000 = Inr \<lparr>totalEntries = length (cache m_boundary) - removed,
                                   validEntries = length (cache m'),
                                   expiredEntries = 0\<rparr>)"
    by blast
  then show ?thesis using h by (simp add: m_boundary_def)
qed

text \<open>
  An entry whose age equals the TTL does not exceed it, and is removed all the same.
\<close>

theorem cleanup_boundary_counterexample:
  "(300000::int) - timestamp (snd (hd (cache m_boundary))) \<le> cacheDuration m_boundary
   \<and> cleanup True m_boundary 300000 =
       Inr \<lparr>cache = [(''users/hubot:'', \<lparr>data = JObj [(''login'', JStr ''hubot'')], timestamp = 1\<rparr>)],
            cacheDuration = 300000,
            cacheFile = Some [(''users/hubot:'', \<lparr>data = JObj [(''login'', JStr ''hubot'')], timestamp = 1\<rparr>)],
            saves = 1,
            console = [''Removed 1 expired cache entries'']\<rparr>"
  by (simp add: m_boundary_def cleanup_def isValid_def saveCache_def show_nat.simps digit_char_def)

text \<open>
  C10. One validity predicate, \<open>now - timestamp < TTL\<close>, decides all three operations. At
  a fixed instant and for every entry of the store: \<^verbatim>\<open>get\<close> returns its data (and
  reports the hit) if it is valid and \<^verbatim>\<open>null\<close> otherwise; \<^verbatim>\<open>cleanup\<close> retains it
  if and only if it is valid; \<^verbatim>\<open>getStats\<close> counts it as valid if it is valid and as
  expired otherwise (compared with the statistics of the store without it), and the total is
  the sum of the valid and the expired count. An entry whose age equals the TTL is expired
  for all three.
\<close>

theorem validity_consistent:
  assumes "distinct (map fst (cache m))"
    and "(generateKey endpoint params, entry) \<in> set (cache m)"
  shows "get_cache m endpoint params now =
           (if now - timestamp entry < cacheDuration m
            then (data entry,
                  m\<lparr>console := console m @ [''[CACHE HIT] Using cached data for '' @ endpoint]\<rparr>)
            else (JNull, m))
     \<and> (\<exists>m'. cleanup ok m now = Inr m'
            \<and> ((generateKey endpoint params, entry) \<in> set (cache m')
                 \<longleftrightarrow> now - timestamp entry < cacheDuration m)
            \<and> map_of (cache m') (generateKey endpoint params)
                 = (if now - timestamp entry < cacheDuration m then Some entry else None))
     \<and> (\<exists>s s0. getStats m now = Inr s
            \<and> getStats (m\<lparr>cache := AList.delete (generateKey endpoint params) (cache m)\<rparr>) now = Inr s0
            \<and> validEntries s
                 = validEntries s0 + (if now - timestamp entry < cacheDuration m then 1 else 0)
            \<and> expiredEntries s
                 = expiredEntries s0 + (if now - timestamp entry < cacheDuration m then 0 else 1)
            \<and> totalEntries s = validEntries s + expiredEntries s
            \<and> totalEntries s = length (cache m))
     \<and> (now - timestamp entry = cacheDuration m \<longrightarrow>
            fst (get_cache m endpoint params now) = JNull
          \<and> (\<exists>m'. cleanup ok m now = Inr m'
                \<and> map_of (cache m') (generateKey endpoint params) = None)
          \<and> (\<exists>s. getStats m now = Inr s \<and> 1 \<le> expiredEntries s))"
proof -
  let ?key = "generateKey endpoint params"
  let ?fresh = "now - timestamp entry < cacheDuration m"
  let ?V = "\<lambda>(k, en). isValid (cacheDuration m) now en"
  let ?E = "\<lambda>(k, en). \<not> isValid (cacheDuration m) now en"
  have look: "map_of (cache m) ?key = Some entry"
    using assms by (rule map_of_is_SomeI)
  have g: "get_cache m endpoint params now =
           (if ?fresh
            then (data entry,
                  m\<lparr>console := console m @ [''[CACHE HIT] Using cached data for '' @ endpoint]\<rparr>)
            else (JNull, m))"
    using look by (simp add: get_cache_def isValid_def Let_def)
  from cleanup_cache[OF assms(1), of ok now]
  obtain m' where m': "cleanup ok m now = Inr m'"
    "cache m' = filter (\<lambda>(k, en). now - timestamp en < cacheDuration m) (cache m)"
    by blast
  have mem: "(?key, entry) \<in> set (cache m') \<longleftrightarrow> ?fresh"
    unfolding m'(2) using assms(2) by auto
  have dist': "distinct (map fst (cache m'))"
    unfolding m'(2) using assms(1) by (rule distinct_map_filter)
  have look': "map_of (cache m') ?key = (if ?fresh then Some entry else None)"
  proof (cases ?fresh)
    case True
    then have "(?key, entry) \<in> set (cache m')" using mem by simp
    with dist' have "map_of (cache m') ?key = Some entry" by (rule map_of_is_SomeI)
    with True show ?thesis by simp
  next
    case False
    have "?key \<notin> fst ` set (cache m')"
    proof
      assume "?key \<in> fst ` set (cache m')"
      then obtain e where e: "(?key, e) \<in> set (cache m')" by force
      then have "(?key, e) \<in> set (cache m)" unfolding m'(2) by simp
      with assms(1) have "map_of (cache m) ?key = Some e" by (rule map_of_is_SomeI)
      with look have "e = entry" by simp
      with e mem False show False by simp
    qed
    then have "map_of (cache m') ?key = None" by (simp add: map_of_eq_None_iff)
    with False show ?thesis by simp
  qed
  let ?mb = "m\<lparr>cache := AList.delete ?key (cache m)\<rparr>"
  let ?s = "\<lparr>totalEntries = length (cache m),
             validEntries = length (filter ?V (cache m)),
             expiredEntries = length (filter ?E (cache m))\<rparr>"
  let ?sb = "\<lparr>totalEntries = length (cache ?mb),
              validEntries = length (filter ?V (cache ?mb)),
              expiredEntries = length (filter ?E (cache ?mb))\<rparr>"
  have s: "getStats m now = Inr ?s" by (rule getStats_distinct[OF assms(1)])
  have "distinct (map fst (cache ?mb))" using assms(1) by (simp add: distinct_delete)
  from getStats_distinct[OF this, of now] have s0: "getStats ?mb now = Inr ?sb" by simp
  have v: "validEntries ?s = validEntries ?sb + (if ?fresh then 1 else 0)"
    using length_filter_delete[OF assms, of ?V] by (simp add: isValid_def)
  have e: "expiredEntries ?s = expiredEntries ?sb + (if ?fresh then 0 else 1)"
    using length_filter_delete[OF assms, of ?E] by (simp add: isValid_def)
  have "length (filter ?V (cache m)) + length (filter (\<lambda>x. \<not> ?V x) (cache m)) = length (cache m)"
    by (rule sum_length_filter_compl)
  moreover have "filter (\<lambda>x. \<not> ?V x) (cache m) = filter ?E (cache m)"
    by (intro filter_cong) auto
  ultimately have t: "totalEntries ?s = validEntries ?s + expiredEntries ?s" by simp
  have stats: "\<exists>s s0. getStats m now = Inr s \<and> getStats ?mb now = Inr s0
            \<and> validEntries s = validEntries s0 + (if ?fresh then 1 else 0)
            \<and> expiredEntries s = expiredEntries s0 + (if ?fresh then 0 else 1)
            \<and> totalEntries s = validEntries s + expiredEntries s
            \<and> totalEntries s = length (cache m)"
  proof (rule exI[of _ ?s], rule exI[of _ ?sb])
    show "getStats m now = Inr ?s \<and> getStats ?mb now = Inr ?sb
            \<and> validEntries ?s = validEntries ?sb + (if ?fresh then 1 else 0)
            \<and> expiredEntries ?s = expiredEntries ?sb + (if ?fresh then 0 else 1)
            \<and> totalEntries ?s = validEntries ?s + expiredEntries ?s
            \<and> totalEntries ?s = length (cache m)"
      using s s0 v e t by simp
  qed
  have cl: "\<exists>m'. cleanup ok m now = Inr m'
            \<and> ((?key, entry) \<in> set (cache m') \<longleftrightarrow> ?fresh)
            \<and> map_of (cache m') ?key = (if ?fresh then Some entry else None)"
    using m'(1) mem look' by blast
  have bnd: "now - timestamp entry = cacheDuration m \<longrightarrow>
            fst (get_cache m endpoint params now) = JNull
          \<and> (\<exists>m'. cleanup ok m now = Inr m' \<and> map_of (cache m') ?key = None)
          \<and> (\<exists>s. getStats m now = Inr s \<and> 1 \<le> expiredEntries s)"
  proof
    assume eq: "now - timestamp entry = cacheDuration m"
    then have nf: "\<not> ?fresh" by simp
    have 1: "fst (get_cache m endpoint params now) = JNull" using g nf by simp
    have 2: "\<exists>m'. cleanup ok m now = Inr m' \<and> map_of (cache m') ?key = None"
      using m'(1) look' nf by auto
    have "1 \<le> expiredEntries ?s" using e nf by simp
    with s have 3: "\<exists>s. getStats m now = Inr s \<and> 1 \<le> expiredEntries s" by blast
    from 1 2 3 show "fst (get_cache m endpoint params now) = JNull
          \<and> (\<exists>m'. cleanup ok m now = Inr m' \<and> map_of (cache m') ?key = None)
          \<and> (\<exists>s. getStats m now = Inr s \<and> 1 \<le> expiredEntries s)" by simp
  qed
  from g cl stats bnd show ?thesis by (intro conjI)
qed

theorem validity_consistent_witness:
  "fst (get_cache m_boundary ''users/octocat'' None 300000) = JNull
   \<and> (\<exists>m'. cleanup True m_boundary 300000 = Inr m'
          \<and> map_of (cache m') (generateKey ''users/octocat'' None) = None)
   \<and> (\<exists>s. getStats m_boundary 300000 = Inr s \<and> 1 \<le> expiredEntries s)"
proof -
  let ?entry = "\<lparr>data = JObj [(''login'', JStr ''octocat'')], timestamp = 0\<rparr>"
  have h1: "distinct (map fst (cache m_boundary))" by (simp add: m_boundary_def)
  have h2: "(generateKey ''users/octocat'' None, ?entry) \<in> set (cache m_boundary)"
    by (simp add: m_boundary_def generateKey_def)
  have h3: "300000 - timestamp ?entry = cacheDuration m_boundary"
    by (simp add: m_boundary_def)
  from validity_consistent[OF h1 h2, of 300000 True] h3 show ?thesis by simp
qed

section \<open>The error normaliser and the response validator\<close>

text \<open>
  C5. \<^verbatim>\<open>handleError\<close> throws exactly one error for every failure it is given. For
  a timeout of the transport (code \<^verbatim>\<open>ECONNABORTED\<close>) the message names the configured
  10000 ms. For a failure that carries a response and none of the transport codes, which are
  tested first, the status code and the raw body are attached, and the message is the
  rate-limit message for 403, the not-found message for 404 and the server-unavailable
  message for 500.
\<close>

theorem handleError_messages:
  "(\<exists>!e. handleError error = Inl e)
   \<and> (code error = Some ''ECONNABORTED'' \<longrightarrow>
        handleError error
          = Inl (Error ''Request timeout: The request took longer than 10000ms''))
   \<and> (\<forall>r. code error \<noteq> Some ''ECONNABORTED'' \<and> code error \<noteq> Some ''ENOTFOUND''
          \<and> code error \<noteq> Some ''EAI_AGAIN'' \<and> err_response error = Some r \<longrightarrow>
        (\<exists>e. handleError error = Inl e
           \<and> statusCode e = Some (status r) \<and> response e = Some (body r)
           \<and> (status r = 403 \<longrightarrow> message e =
                 ''Rate limit exceeded: GitHub API rate limit reached. Please try again later.'')
           \<and> (status r = 404 \<longrightarrow> message e =
                 ''Not Found: The requested resource does not exist'')
           \<and> (status r = 500 \<longrightarrow> message e =
                 ''Server Error: GitHub API is currently unavailable'')))"
proof -
  have t: "show_nat timeout = ''10000''"
    by (simp add: timeout_def show_nat.simps digit_char_def)
  have 1: "\<exists>!e. handleError error = Inl e"
    by (auto simp: handleError_def Let_def split: option.splits)
  have 2: "code error = Some ''ECONNABORTED'' \<longrightarrow>
        handleError error
          = Inl (Error ''Request timeout: The request took longer than 10000ms'')"
    by (simp add: handleError_def t)
  have 3: "\<forall>r. code error \<noteq> Some ''ECONNABORTED'' \<and> code error \<noteq> Some ''ENOTFOUND''
          \<and> code error \<noteq> Some ''EAI_AGAIN'' \<and> err_response error = Some r \<longrightarrow>
        (\<exists>e. handleError error = Inl e
           \<and> statusCode e = Some (status r) \<and> response e = Some (body r)
           \<and> (status r = 403 \<longrightarrow> message e =
                 ''Rate limit exceeded: GitHub API rate limit reached. Please try again later.'')
           \<and> (status r = 404 \<longrightarrow> message e =
                 ''Not Found: The requested resource does not exist'')
           \<and> (status r = 500 \<longrightarrow> message e =
                 ''Server Error: GitHub API is currently unavailable''))"
    by (simp add: handleError_def Let_def)
  from 1 2 3 show ?thesis by (intro conjI)
qed

theorem handleError_messages_witness:
  "handleError \<lparr>code = Some ''ERR_BAD_REQUEST'',
                err_response = Some \<lparr>status = 403, body = JObj [(''message'', JStr ''API rate limit exceeded'')]\<rparr>,
                err_message = ''Request failed with status code 403''\<rparr>
     = Inl \<lparr>message = ''Rate limit exceeded: GitHub API rate limit reached. Please try again later.'',
            statusCode = Some 403,
            response = Some (JObj [(''message'', JStr ''API rate limit exceeded'')])\<rparr>
   \<and> handleError \<lparr>code = Some ''ECONNABORTED'', err_response = None,
                  err_message = ''timeout of 10000ms exceeded''\<rparr>
     = Inl (Error ''Request timeout: The request took longer than 10000ms'')"
proof -
  let ?r = "\<lparr>status = 403, body = JObj [(''message'', JStr ''API rate limit exceeded'')]\<rparr>"
  let ?e1 = "\<lparr>code = Some ''ERR_BAD_REQUEST'', err_response = Some ?r,
              err_message = ''Request failed with status code 403''\<rparr>"
  let ?e2 = "\<lparr>code = Some ''ECONNABORTED'', err_response = None,
              err_message = ''timeout of 10000ms exceeded''\<rparr>"
  from handleError_messages[of ?e1]
  obtain e where "handleError ?e1 = Inl e" "statusCode e = Some 403"
    "response e = Some (JObj [(''message'', JStr ''API rate limit exceeded'')])"
    "message e = ''Rate limit exceeded: GitHub API rate limit reached. Please try again later.''"
    by auto
  then have a: "handleError ?e1
     = Inl \<lparr>message = ''Rate limit exceeded: GitHub API rate limit reached. Please try again later.'',
            statusCode = Some 403,
            response = Some (JObj [(''message'', JStr ''API rate limit exceeded'')])\<rparr>"
    by (cases e) simp
  have b: "handleError ?e2 = Inl (Error ''Request timeout: The request took longer than 10000ms'')"
    using handleError_messages[of ?e2] by simp
  from a b show ?thesis by (rule conjI)
qed

lemma check_fields_ok:
  "\<forall>f \<in> set fs. in_op inherited f d \<Longrightarrow> check_fields inherited d fs = Inr d"
  by (induction fs) auto

lemma check_fields_first_missing:
  "\<forall>g \<in> set pre. in_op inherited g d \<Longrightarrow> \<not> in_op inherited f d \<Longrightarrow>
   check_fields inherited d (pre @ f # post) = Inl (missing_field f)"
  by (induction pre) auto

lemma is_object_iff:
  "(truthy d \<and> typeof d = ''object'') \<longleftrightarrow> (\<exists>kvs. d = JObj kvs) \<or> (\<exists>xs. d = JArr xs)"
  by (cases d) auto

text \<open>
  C6, as the code has it. A payload that is not an object or an array (\<^verbatim>\<open>null\<close>, a
  primitive) fails with the shape error, which names no field, whatever the required fields.
  For a payload that is an object or an array, validation succeeds with the payload when
  every required field is a property of it as \<^verbatim>\<open>in\<close> sees it, and fails with the
  error naming the first required field that is not. A property of an object is present
  whatever its value, \<^verbatim>\<open>null\<close> included.
\<close>

theorem validateResponse_correct:
  "(\<not> ((\<exists>kvs. d = JObj kvs) \<or> (\<exists>xs. d = JArr xs)) \<longrightarrow>
      validateResponse inherited d fs
        = Inl (Error ''Invalid response: Expected object but received invalid data''))
   \<and> ((\<exists>kvs. d = JObj kvs) \<or> (\<exists>xs. d = JArr xs) \<longrightarrow>
        ((\<forall>f \<in> set fs. in_op inherited f d) \<longrightarrow> validateResponse inherited d fs = Inr d)
      \<and> (\<forall>pre f post. fs = pre @ f # post \<and> (\<forall>g \<in> set pre. in_op inherited g d)
             \<and> \<not> in_op inherited f d \<longrightarrow>
           validateResponse inherited d fs
             = Inl (Error (''Invalid response: Missing required field ''
                           @ [CHR 0x27] @ f @ [CHR 0x27]))))
   \<and> (\<forall>kvs f v. (f, v) \<in> set kvs \<longrightarrow> in_op inherited f (JObj kvs))"
proof -
  have 1: "\<not> ((\<exists>kvs. d = JObj kvs) \<or> (\<exists>xs. d = JArr xs)) \<longrightarrow>
      validateResponse inherited d fs
        = Inl (Error ''Invalid response: Expected object but received invalid data'')"
    using is_object_iff[of d] by (auto simp: validateResponse_def)
  have 2: "(\<exists>kvs. d = JObj kvs) \<or> (\<exists>xs. d = JArr xs) \<longrightarrow>
        ((\<forall>f \<in> set fs. in_op inherited f d) \<longrightarrow> validateResponse inherited d fs = Inr d)
      \<and> (\<forall>pre f post. fs = pre @ f # post \<and> (\<forall>g \<in> set pre. in_op inherited g d)
             \<and> \<not> in_op inherited f d \<longrightarrow>
           validateResponse inherited d fs
             = Inl (Error (''Invalid response: Missing required field ''
                           @ [CHR 0x27] @ f @ [CHR 0x27])))"
  proof
    assume obj: "(\<exists>kvs. d = JObj kvs) \<or> (\<exists>xs. d = JArr xs)"
    then have v: "validateResponse inherited d fs = check_fields inherited d fs"
      using is_object_iff[of d] by (simp add: validateResponse_def)
    show "((\<forall>f \<in> set fs. in_op inherited f d) \<longrightarrow> validateResponse inherited d fs = Inr d)
      \<and> (\<forall>pre f post. fs = pre @ f # post \<and> (\<forall>g \<in> set pre. in_op inherited g d)
             \<and> \<not> in_op inherited f d \<longrightarrow>
           validateResponse inherited d fs
             = Inl (Error (''Invalid response: Missing required field ''
                           @ [CHR 0x27] @ f @ [CHR 0x27])))"
      unfolding v
      using check_fields_ok[of fs inherited d]
      by (auto simp: check_fields_first_missing missing_field_def)
  qed
  have 3: "\<forall>kvs f v. (f, v) \<in> set kvs \<longrightarrow> in_op inherited f (JObj kvs)"
    by (force simp: in_op_def)
  from 1 2 3 show ?thesis by (intro conjI)
qed

theorem validateResponse_correct_witness:
  "validateResponse (\<lambda>d f. False)
      (JObj [(''login'', JStr ''octocat''), (''id'', JNum 1), (''html_url'', JNull)])
      [''login'', ''id'', ''html_url'']
     = Inr (JObj [(''login'', JStr ''octocat''), (''id'', JNum 1), (''html_url'', JNull)])
   \<and> validateResponse (\<lambda>d f. False)
      (JObj [(''login'', JStr ''octocat''), (''html_url'', JNull)])
      [''login'', ''id'', ''html_url'']
     = Inl (Error (''Invalid response: Missing required field '' @ [CHR 0x27] @ ''id'' @ [CHR 0x27]))"
proof -
  let ?inh = "\<lambda>(d::json) (f::string). False"
  let ?d1 = "JObj [(''login'', JStr ''octocat''), (''id'', JNum 1), (''html_url'', JNull)]"
  let ?d2 = "JObj [(''login'', JStr ''octocat''), (''html_url'', JNull)]"
  let ?fs = "[''login'', ''id'', ''html_url'']"
  have a: "validateResponse ?inh ?d1 ?fs = Inr ?d1"
    using validateResponse_correct[of ?d1 ?inh ?fs] by (simp add: in_op_def)
  have "?fs = [''login''] @ ''id'' # [''html_url'']
        \<and> (\<forall>g \<in> set [''login'']. in_op ?inh g ?d2) \<and> \<not> in_op ?inh ''id'' ?d2"
    by (simp add: in_op_def)
  with validateResponse_correct[of ?d2 ?inh ?fs]
  have b: "validateResponse ?inh ?d2 ?fs
     = Inl (Error (''Invalid response: Missing required field '' @ [CHR 0x27] @ ''id'' @ [CHR 0x27]))"
    by blast
  from a b show ?thesis by (rule conjI)
qed

text \<open>
  The payload \<^verbatim>\<open>null\<close> has no field \<^verbatim>\<open>id\<close>, and the error is the shape error,
  not the one naming \<^verbatim>\<open>id\<close>.
\<close>

theorem validateResponse_shape_counterexample:
  "\<not> in_op (\<lambda>d f. False) ''id'' JNull
   \<and> validateResponse (\<lambda>d f. False) JNull [''id'']
       = Inl (Error ''Invalid response: Expected object but received invalid data'')
   \<and> validateResponse (\<lambda>d f. False) JNull [''id'']
       \<noteq> Inl (Error (''Invalid response: Missing required field '' @ [CHR 0x27] @ ''id'' @ [CHR 0x27]))"
  by (simp add: validateResponse_def in_op_def Error_def)

section \<open>The data service\<close>

lemma get_cache_keeps:
  "cache (snd (get_cache m e p now)) = cache m"
  "cacheFile (snd (get_cache m e p now)) = cacheFile m"
  "saves (snd (get_cache m e p now)) = saves m"
  by (auto simp: get_cache_def Let_def split: option.splits)

lemma searchRepositories_contract:
  "read_contract api ok now now' ds ''search/repositories''
     (Some [(''q'', JStr query), (''sort'', JStr sort_by), (''per_page'', JNum perPage)])
     (ApiSearchRepositories query sort_by perPage)
     (searchRepositories api ok now now' ds query sort_by perPage)"
  unfolding read_contract_def searchRepositories_def Let_def
  by (auto simp: get_cache_keeps case_prod_unfold split: sum.splits)

lemma getRepository_contract:
  "read_contract api ok now now' ds (''repos/'' @ owner @ ''/'' @ repo) None
     (ApiGetRepository owner repo)
     (getRepository api ok now now' ds owner repo)"
  unfolding read_contract_def getRepository_def Let_def
  by (auto simp: get_cache_keeps case_prod_unfold split: sum.splits)

lemma getUser_contract:
  "read_contract api ok now now' ds (''users/'' @ username) None
     (ApiGetUser username)
     (getUser api ok now now' ds username)"
  unfolding read_contract_def getUser_def Let_def
  by (auto simp: get_cache_keeps case_prod_unfold split: sum.splits)

lemma getUserRepositories_contract:
  "read_contract api ok now now' ds (''users/'' @ username @ ''/repos'')
     (Some [(''sort'', JStr sort_by), (''per_page'', JNum perPage)])
     (ApiGetUserRepositories username sort_by perPage)
     (getUserRepositories api ok now now' ds username sort_by perPage)"
  unfolding read_contract_def getUserRepositories_def Let_def
  by (auto simp: get_cache_keeps case_prod_unfold split: sum.splits)

text \<open>
  C3. Each of \<^verbatim>\<open>searchRepositories\<close>, \<^verbatim>\<open>getRepository\<close>, \<^verbatim>\<open>getUser\<close> and
  \<^verbatim>\<open>getUserRepositories\<close> meets the read contract for its cache key, parameters and
  API call: on a cache hit the cached payload is returned unchanged and the API client is not
  invoked; on a miss the API client is invoked, its failure is returned unchanged with no
  cache write, and its payload is stored with \<^verbatim>\<open>set\<close> and returned. Every payload
  that is an object or an array is a hit, and \<^verbatim>\<open>null\<close> is a miss.
\<close>

theorem data_service_cache_then_fetch:
  "read_contract api ok now now' ds ''search/repositories''
     (Some [(''q'', JStr query), (''sort'', JStr sort_by), (''per_page'', JNum perPage)])
     (ApiSearchRepositories query sort_by perPage)
     (searchRepositories api ok now now' ds query sort_by perPage)
   \<and> read_contract api ok now now' ds (''repos/'' @ owner @ ''/'' @ repo) None
     (ApiGetRepository owner repo)
     (getRepository api ok now now' ds owner repo)
   \<and> read_contract api ok now now' ds (''users/'' @ username) None
     (ApiGetUser username)
     (getUser api ok now now' ds username)
   \<and> read_contract api ok now now' ds (''users/'' @ username @ ''/repos'')
     (Some [(''sort'', JStr sort_by), (''per_page'', JNum perPage)])
     (ApiGetUserRepositories username sort_by perPage)
     (getUserRepositories api ok now now' ds username sort_by perPage)
   \<and> (\<forall>kvs. truthy (JObj kvs)) \<and> (\<forall>xs. truthy (JArr xs)) \<and> \<not> truthy JNull"
  using searchRepositories_contract getRepository_contract getUser_contract
    getUserRepositories_contract
  by (intro conjI) simp_all

theorem data_service_cache_then_fetch_witness:
  "fst (getUser api_demo True 2000 2500 ds_demo ''octocat'') = Inr (JObj [(''login'', JStr ''octocat'')])
   \<and> apiCalls (snd (getUser api_demo True 2000 2500 ds_demo ''octocat'')) = []
   \<and> fst (getUser api_demo True 2000 2500 ds_demo ''hubot'') = Inr (JObj [(''login'', JStr ''hubot'')])
   \<and> cacheManager (snd (getUser api_demo True 2000 2500 ds_demo ''hubot''))
       = set_cache True m_demo ''users/hubot'' (JObj [(''login'', JStr ''hubot'')]) None 2500
   \<and> fst (getRepository api_demo True 2000 2500 ds_demo ''octocat'' ''hello'')
       = Inl (Error ''Not Found: The requested resource does not exist'')
   \<and> cache (cacheManager (snd (getRepository api_demo True 2000 2500 ds_demo ''octocat'' ''hello'')))
       = cache m_demo
   \<and> saves (cacheManager (snd (getRepository api_demo True 2000 2500 ds_demo ''octocat'' ''hello''))) = 0"
proof -
  have g1: "get_cache m_demo ''users/octocat'' None 2000
          = (JObj [(''login'', JStr ''octocat'')],
             m_demo\<lparr>console := [''[CACHE HIT] Using cached data for users/octocat'']\<rparr>)"
    by (simp add: get_cache_def generateKey_def m_demo_def isValid_def)
  have g2: "get_cache m_demo ''users/hubot'' None 2000 = (JNull, m_demo)"
    by (simp add: get_cache_def generateKey_def m_demo_def isValid_def)
  have g3: "get_cache m_demo ''repos/octocat/hello'' None 2000 = (JNull, m_demo)"
    by (simp add: get_cache_def generateKey_def m_demo_def isValid_def)
  have s0: "saves m_demo = 0" by (simp add: m_demo_def)
  note c = data_service_cache_then_fetch[of api_demo True 2000 2500 ds_demo]
  have a: "fst (getUser api_demo True 2000 2500 ds_demo ''octocat'') = Inr (JObj [(''login'', JStr ''octocat'')])
         \<and> apiCalls (snd (getUser api_demo True 2000 2500 ds_demo ''octocat'')) = []"
    using c[of _ _ _ _ _ "''octocat''"] g1
    by (simp add: read_contract_def ds_demo_def)
  have b: "fst (getUser api_demo True 2000 2500 ds_demo ''hubot'') = Inr (JObj [(''login'', JStr ''hubot'')])
         \<and> cacheManager (snd (getUser api_demo True 2000 2500 ds_demo ''hubot''))
            = set_cache True m_demo ''users/hubot'' (JObj [(''login'', JStr ''hubot'')]) None 2500"
    using c[of _ _ _ _ _ "''hubot''"] g2
    by (simp add: read_contract_def ds_demo_def api_demo_def)
  have d: "fst (getRepository api_demo True 2000 2500 ds_demo ''octocat'' ''hello'')
       = Inl (Error ''Not Found: The requested resource does not exist'')
   \<and> cache (cacheManager (snd (getRepository api_demo True 2000 2500 ds_demo ''octocat'' ''hello'')))
       = cache m_demo
   \<and> saves (cacheManager (snd (getRepository api_demo True 2000 2500 ds_demo ''octocat'' ''hello''))) = 0"
    using c[of _ _ _ "''octocat''" "''hello''"] g3 s0
    by (simp add: read_contract_def ds_demo_def api_demo_def)
  from a b d show ?thesis by simp
qed

subsection \<open>Filtering\<close>

lemma filter_conj: "filter P (filter Q xs) = filter (\<lambda>x. Q x \<and> P x) xs"
  by (induction xs) auto

lemma filterRepositories_eq:
  "filterRepositories repos f =
     filter (matches_supplied (if flt_language f = Some [] then f\<lparr>flt_language := None\<rparr> else f)) repos"
  unfolding filterRepositories_def Let_def
  by (cases "flt_language f"; cases "minStars f"; cases "maxStars f"; cases "flt_archived f")
     (auto simp: matches_supplied_def filter_conj intro!: filter_cong split: option.splits)

text \<open>
  C8, as the code has it. For every input list, \<^verbatim>\<open>filterRepositories\<close> returns
  exactly the elements that meet every supplied criterion (language up to case, minimum and
  maximum stars inclusive, archived flag), where a language criterion that is the empty
  string counts as not supplied. With a minimum of 100 and a maximum of 500 stars on items
  with 50, 100, 300, 500 and 900 stars it returns the items with 100, 300 and 500 stars.
\<close>

theorem filterRepositories_conjunction:
  "(flt_language f \<noteq> Some [] \<longrightarrow>
      filterRepositories repos f = filter (matches_supplied f) repos)
   \<and> (flt_language f = Some [] \<longrightarrow>
      filterRepositories repos f = filter (matches_supplied (f\<lparr>flt_language := None\<rparr>)) repos)
   \<and> filterRepositories (map star_repo [50, 100, 300, 500, 900])
        \<lparr>flt_language = None, minStars = Some 100, maxStars = Some 500, flt_archived = None\<rparr>
       = map star_repo [100, 300, 500]"
proof -
  have "filterRepositories (map star_repo [50, 100, 300, 500, 900])
        \<lparr>flt_language = None, minStars = Some 100, maxStars = Some 500, flt_archived = None\<rparr>
       = map star_repo [100, 300, 500]"
    by (simp add: filterRepositories_def star_repo_def)
  then show ?thesis by (simp add: filterRepositories_eq)
qed

theorem filterRepositories_conjunction_witness:
  "filterRepositories [star_repo 50, star_repo 700]
      \<lparr>flt_language = Some ''TYPESCRIPT'', minStars = Some 100, maxStars = None, flt_archived = Some False\<rparr>
     = [star_repo 700]"
proof -
  let ?f = "\<lparr>flt_language = Some ''TYPESCRIPT'', minStars = Some 100, maxStars = None, flt_archived = Some False\<rparr>"
  have "flt_language ?f \<noteq> Some []" by simp
  with filterRepositories_conjunction[of ?f "[star_repo 50, star_repo 700]"]
  have "filterRepositories [star_repo 50, star_repo 700] ?f
      = filter (matches_supplied ?f) [star_repo 50, star_repo 700]" by blast
  also have "\<dots> = [star_repo 700]"
    by (simp add: matches_supplied_def star_repo_def toLowerCase_def lower_char_def)
  finally show ?thesis .
qed

text \<open>
  With the empty string as language criterion the repository is returned, though its
  language does not equal the empty string.
\<close>

theorem filterRepositories_empty_language_counterexample:
  "filterRepositories [star_repo 50]
      \<lparr>flt_language = Some [], minStars = None, maxStars = None, flt_archived = None\<rparr>
     = [star_repo 50]
   \<and> filter (matches_supplied
        \<lparr>flt_language = Some [], minStars = None, maxStars = None, flt_archived = None\<rparr>)
        [star_repo 50] = []"
  by (simp add: filterRepositories_def matches_supplied_def star_repo_def toLowerCase_def)

end
